theory Spec2Isabelle
  imports Complex_Main "HOL-Library.AList"
begin

section \<open>PageRank: the transition model and the two estimators\<close>

text \<open>
  A shallow embedding of \<^verbatim>\<open>pagerank.py\<close>. A Python \<^verbatim>\<open>dict\<close> is an association
  list in insertion order (its keys are distinct, which the theorems assume where they
  need it), a Python \<^verbatim>\<open>set\<close> of pages is a \<open>page set\<close> (finite, assumed likewise), and
  \<^verbatim>\<open>len\<close> of a set is \<open>card\<close>. Every exception the code can raise is a value \<open>Inl e\<close>.

  Arithmetic is modelled twice. The definitions named after the source functions compute
  in exact real arithmetic: they say what the formulas of the code are. For the iterative
  estimator, whose termination depends on rounding, a second copy prefixed \<open>fl_\<close> passes
  the result of every floating-point operation through a rounding function; with the
  identity it is the exact model, with \<open>double_round\<close> it is IEEE binary64.
\<close>

subsection \<open>Data model\<close>

type_synonym page = string

type_synonym corpus = "(page \<times> page set) list"

type_synonym ranks = "(page \<times> real) list"

datatype error =
    KeyError page
  | ZeroDivisionError
  | IndexError
  | RandintEmptyRange
  | ChoicesError
  | MaxEmptySequence
  | ProbabilityCheck real

text \<open>
  \<open>RandintEmptyRange\<close>, \<open>ChoicesError\<close>, \<open>MaxEmptySequence\<close> and \<open>ProbabilityCheck\<close>
  are all \<^verbatim>\<open>ValueError\<close> in Python: raised by \<^verbatim>\<open>random.randint(0, -1)\<close>, by
  \<^verbatim>\<open>random.choices\<close>, by \<^verbatim>\<open>max\<close> of an empty generator, and by line 120 of
  \<^verbatim>\<open>sample_pagerank\<close> (carrying \<^verbatim>\<open>probability_sum\<close>).
\<close>

definition keys :: "('k \<times> 'v) list \<Rightarrow> 'k list" where
  "keys d = map fst d"

definition vals :: "('k \<times> 'v) list \<Rightarrow> 'v list" where
  "vals d = map snd d"

text \<open>\<^verbatim>\<open>d[k]\<close>: the value stored under \<open>k\<close>, or \<^verbatim>\<open>KeyError\<close>.\<close>

definition lookup :: "(page \<times> 'v) list \<Rightarrow> page \<Rightarrow> error + 'v" where
  "lookup d k = (case map_of d k of None \<Rightarrow> Inl (KeyError k) | Some v \<Rightarrow> Inr v)"

text \<open>What the Python types guarantee of a corpus: distinct keys, finite link sets.\<close>

definition well_typed :: "corpus \<Rightarrow> bool" where
  "well_typed corpus \<longleftrightarrow>
     distinct (keys corpus) \<and> list_all (\<lambda>(pg, links). finite links) corpus"

text \<open>
  The corpus invariant of the data model: every link target is itself a key. (The data
  model also excludes self-links; nothing below depends on that.)
\<close>

definition corpus_invariant :: "corpus \<Rightarrow> bool" where
  "corpus_invariant corpus \<longleftrightarrow>
     list_all (\<lambda>(pg, links). links \<subseteq> set (keys corpus)) corpus"

subsection \<open>Transition model\<close>

definition transition_model :: "corpus \<Rightarrow> page \<Rightarrow> real \<Rightarrow> error + ranks" where
  "transition_model corpus page damping_factor =
     (case lookup corpus page of
        Inl e \<Rightarrow> Inl e
      | Inr links \<Rightarrow>
          (let N = length corpus;
               LINKS_LEN = card links
           in if LINKS_LEN = 0
              then Inr (map (\<lambda>pg. (pg, 1 / real N)) (keys corpus))
              else Inr (map (\<lambda>pg. (pg,
                          if pg \<in> links
                          then (1 - damping_factor) / real N + damping_factor / real LINKS_LEN
                          else (1 - damping_factor) / real N))
                        (keys corpus))))"

subsection \<open>Sampling estimator\<close>

text \<open>
  The random source is a parameter of the model. \<open>randint a b\<close> stands for
  \<^verbatim>\<open>random.randint(a, b)\<close> and \<open>choices i population weights\<close> for the \<open>i\<close>-th call
  \<^verbatim>\<open>random.choices(population, weights=weights, k=1)[0]\<close>; either may raise.
\<close>

record rng =
  randint :: "int \<Rightarrow> int \<Rightarrow> error + int"
  choices :: "nat \<Rightarrow> page list \<Rightarrow> real list \<Rightarrow> error + page"

text \<open>
  What the library promises of the two calls: \<^verbatim>\<open>randint\<close> returns a number of the
  range when the range is not empty and raises otherwise; \<^verbatim>\<open>choices\<close> returns a member
  of a non-empty population whose weights have a positive total.
\<close>

definition rng_contract :: "rng \<Rightarrow> bool" where
  "rng_contract g \<longleftrightarrow>
     (\<forall>a b. a \<le> b \<longrightarrow> (\<exists>r. randint g a b = Inr r \<and> a \<le> r \<and> r \<le> b)) \<and>
     (\<forall>a b. b < a \<longrightarrow> randint g a b = Inl RandintEmptyRange) \<and>
     (\<forall>i population weights.
        population \<noteq> [] \<and> length weights = length population \<and> 0 < sum_list weights \<longrightarrow>
        (\<exists>p \<in> set population. choices g i population weights = Inr p))"

text \<open>
  Subscripting a list with a Python integer: positions \<open>0 .. len - 1\<close> from the front,
  \<open>-len .. -1\<close> from the back, \<^verbatim>\<open>IndexError\<close> outside.
\<close>

definition py_index :: "'a list \<Rightarrow> int \<Rightarrow> error + 'a" where
  "py_index xs i =
     (if 0 \<le> i \<and> i < int (length xs) then Inr (xs ! nat i)
      else if i < 0 \<and> - int (length xs) \<le> i then Inr (xs ! nat (int (length xs) + i))
      else Inl IndexError)"

text \<open>Lines 107-111, one equation per turn of \<^verbatim>\<open>for i in range(n)\<close>.\<close>

fun walk :: "corpus \<Rightarrow> real \<Rightarrow> rng \<Rightarrow> nat list \<Rightarrow> page \<Rightarrow> (page \<times> nat) list
               \<Rightarrow> error + (page \<times> nat) list" where
  "walk corpus damping_factor g [] page visits = Inr visits"
| "walk corpus damping_factor g (i # rest) page visits =
     (case transition_model corpus page damping_factor of
        Inl e \<Rightarrow> Inl e
      | Inr probability_dict \<Rightarrow>
          (case choices g i (keys probability_dict) (vals probability_dict) of
             Inl e \<Rightarrow> Inl e
           | Inr next_page \<Rightarrow>
               (case lookup visits next_page of
                  Inl e \<Rightarrow> Inl e
                | Inr c \<Rightarrow>
                    walk corpus damping_factor g rest next_page
                      (AList.update next_page (c + 1) visits))))"

text \<open>Lines 115-116: every count divided by \<open>n\<close>.\<close>

definition normalize :: "(page \<times> nat) list \<Rightarrow> int \<Rightarrow> error + ranks" where
  "normalize visits n =
     (if visits \<noteq> [] \<and> n = 0 then Inl ZeroDivisionError
      else Inr (map (\<lambda>(page, c). (page, real c / real_of_int n)) visits))"

text \<open>Lines 91-116: the table that \<^verbatim>\<open>sample_pagerank\<close> is about to return.\<close>

definition sample_visits :: "corpus \<Rightarrow> real \<Rightarrow> int \<Rightarrow> rng \<Rightarrow> error + ranks" where
  "sample_visits corpus damping_factor n g =
     (let N = length corpus;
          visits = map (\<lambda>page. (page, 0)) (keys corpus)
      in case randint g 0 (int N - 1) of
           Inl e \<Rightarrow> Inl e
         | Inr rand \<Rightarrow>
             (case py_index (keys corpus) rand of
                Inl e \<Rightarrow> Inl e
              | Inr page \<Rightarrow>
                  (case walk corpus damping_factor g [0 ..< nat n] page visits of
                     Inl e \<Rightarrow> Inl e
                   | Inr visits \<Rightarrow> normalize visits n)))"

text \<open>Lines 118-120: the check of the sum.\<close>

definition probability_check :: "ranks \<Rightarrow> error + ranks" where
  "probability_check visits =
     (let probability_sum = sum_list (vals visits)
      in if \<bar>probability_sum - 1\<bar> > 0.001 then Inl (ProbabilityCheck probability_sum)
         else Inr visits)"

definition sample_pagerank :: "corpus \<Rightarrow> real \<Rightarrow> int \<Rightarrow> rng \<Rightarrow> error + ranks" where
  "sample_pagerank corpus damping_factor n g =
     (case sample_visits corpus damping_factor n g of
        Inl e \<Rightarrow> Inl e
      | Inr visits \<Rightarrow> probability_check visits)"

subsection \<open>Iterative estimator\<close>

text \<open>
  Lines 147-151: the inner loop over \<^verbatim>\<open>corpus.keys()\<close>, adding to \<^verbatim>\<open>new_ranks[page]\<close>
  (the accumulator) what each page \<open>pg\<close> contributes.
\<close>

fun add_contributions :: "corpus \<Rightarrow> real \<Rightarrow> ranks \<Rightarrow> page \<Rightarrow> page list \<Rightarrow> real \<Rightarrow> error + real" where
  "add_contributions corpus damping_factor ranks page [] acc = Inr acc"
| "add_contributions corpus damping_factor ranks page (pg # rest) acc =
     (case lookup corpus pg of
        Inl e \<Rightarrow> Inl e
      | Inr links \<Rightarrow>
          if page \<in> links then
            (case lookup ranks pg of
               Inl e \<Rightarrow> Inl e
             | Inr r \<Rightarrow> add_contributions corpus damping_factor ranks page rest
                          (acc + damping_factor * r / real (card links)))
          else if card links = 0 then
            (case lookup ranks pg of
               Inl e \<Rightarrow> Inl e
             | Inr r \<Rightarrow> add_contributions corpus damping_factor ranks page rest
                          (acc + damping_factor * r / real (length corpus)))
          else add_contributions corpus damping_factor ranks page rest acc)"

text \<open>Lines 144-151: one pass, building \<^verbatim>\<open>new_ranks\<close> from \<^verbatim>\<open>ranks\<close> page by page.\<close>

fun update_ranks :: "corpus \<Rightarrow> real \<Rightarrow> ranks \<Rightarrow> page list \<Rightarrow> error + ranks" where
  "update_ranks corpus damping_factor ranks [] = Inr []"
| "update_ranks corpus damping_factor ranks (page # rest) =
     (case add_contributions corpus damping_factor ranks page (keys corpus)
             ((1 - damping_factor) / real (length corpus)) of
        Inl e \<Rightarrow> Inl e
      | Inr v \<Rightarrow>
          (case update_ranks corpus damping_factor ranks rest of
             Inl e \<Rightarrow> Inl e
           | Inr new_ranks \<Rightarrow> Inr ((page, v) # new_ranks)))"

text \<open>Line 153: the generator of absolute changes, and \<^verbatim>\<open>max\<close> of it.\<close>

fun changes :: "ranks \<Rightarrow> ranks \<Rightarrow> page list \<Rightarrow> error + real list" where
  "changes new_ranks ranks [] = Inr []"
| "changes new_ranks ranks (page # rest) =
     (case lookup new_ranks page of
        Inl e \<Rightarrow> Inl e
      | Inr a \<Rightarrow>
          (case lookup ranks page of
             Inl e \<Rightarrow> Inl e
           | Inr b \<Rightarrow>
               (case changes new_ranks ranks rest of
                  Inl e \<Rightarrow> Inl e
                | Inr cs \<Rightarrow> Inr (\<bar>a - b\<bar> # cs))))"

definition py_max :: "real list \<Rightarrow> error + real" where
  "py_max xs = (case xs of [] \<Rightarrow> Inl MaxEmptySequence | x # rest \<Rightarrow> Inr (fold max rest x))"

text \<open>
  Lines 144-153: one pass, giving \<^verbatim>\<open>new_ranks\<close> and the maximum absolute change.
\<close>

definition pass :: "corpus \<Rightarrow> real \<Rightarrow> ranks \<Rightarrow> error + (ranks \<times> real)" where
  "pass corpus damping_factor ranks =
     (case update_ranks corpus damping_factor ranks (keys corpus) of
        Inl e \<Rightarrow> Inl e
      | Inr new_ranks \<Rightarrow>
          (case changes new_ranks ranks (keys corpus) of
             Inl e \<Rightarrow> Inl e
           | Inr cs \<Rightarrow>
               (case py_max cs of
                  Inl e \<Rightarrow> Inl e
                | Inr m \<Rightarrow> Inr (new_ranks, m))))"

text \<open>
  Lines 143-159: \<^verbatim>\<open>while True\<close>. \<open>None\<close> is a loop that never ends. On convergence the
  code returns \<^verbatim>\<open>ranks\<close>, the table the last pass started from.
\<close>

partial_function (option) iterate_loop :: "corpus \<Rightarrow> real \<Rightarrow> ranks \<Rightarrow> (error + ranks) option" where
  "iterate_loop corpus damping_factor ranks =
     (case pass corpus damping_factor ranks of
        Inl e \<Rightarrow> Some (Inl e)
      | Inr (new_ranks, m) \<Rightarrow>
          if m < 0.001 then Some (Inr ranks)
          else iterate_loop corpus damping_factor new_ranks)"

declare iterate_loop.simps [code]

definition iterate_pagerank :: "corpus \<Rightarrow> real \<Rightarrow> (error + ranks) option" where
  "iterate_pagerank corpus damping_factor =
     (let N = length corpus;
          ranks = map (\<lambda>page. (page, 1 / real N)) (keys corpus)
      in iterate_loop corpus damping_factor ranks)"

subsection \<open>The iterative estimator in rounded arithmetic\<close>










subsection \<open>Auxiliary notions for the proofs\<close>

text \<open>The dictionary with keys \<open>ks\<close> that stores \<open>f k\<close> under \<open>k\<close>.\<close>

definition table :: "page list \<Rightarrow> (page \<Rightarrow> real) \<Rightarrow> ranks" where
  "table ks f = map (\<lambda>k. (k, f k)) ks"

text \<open>The share of the rank of \<open>pg\<close> that a pass hands to \<open>page\<close>.\<close>

definition share :: "corpus \<Rightarrow> page \<Rightarrow> page \<Rightarrow> real" where
  "share corpus pg page =
     (case map_of corpus pg of
        None \<Rightarrow> 0
      | Some links \<Rightarrow>
          if page \<in> links then 1 / real (card links)
          else if card links = 0 then 1 / real (length corpus)
          else 0)"

text \<open>A pass as a map on rank functions, and the total change it makes.\<close>

definition next_rank :: "corpus \<Rightarrow> real \<Rightarrow> (page \<Rightarrow> real) \<Rightarrow> page \<Rightarrow> real" where
  "next_rank corpus d f page =
     (1 - d) / real (length corpus)
       + d * (\<Sum>pg \<leftarrow> keys corpus. f pg * share corpus pg page)"

definition total_change :: "corpus \<Rightarrow> real \<Rightarrow> (page \<Rightarrow> real) \<Rightarrow> real" where
  "total_change corpus d f = (\<Sum>page \<leftarrow> keys corpus. \<bar>next_rank corpus d f page - f page\<bar>)"

text \<open>The largest absolute change between two rank functions over the keys \<open>ks\<close>.\<close>

definition max_change :: "page list \<Rightarrow> (page \<Rightarrow> real) \<Rightarrow> (page \<Rightarrow> real) \<Rightarrow> real" where
  "max_change ks g f = Max ((\<lambda>page. \<bar>g page - f page\<bar>) ` set ks)"

subsection \<open>An input on which binary64 arithmetic cycles\<close>




subsection \<open>A random source for the examples\<close>

text \<open>
  \<^verbatim>\<open>randint\<close> returns the lower bound; the \<open>i\<close>-th call of \<^verbatim>\<open>choices\<close> returns the
  member of the population at position \<open>i\<close> modulo its length.
\<close>

definition round_robin_rng :: rng where
  "round_robin_rng = \<lparr> randint = (\<lambda>a b. if a \<le> b then Inr a else Inl RandintEmptyRange),
                 choices = (\<lambda>i population weights.
                    if population = [] then Inl ChoicesError
                    else Inr (population ! (i mod length population))) \<rparr>"

section \<open>Lemmas\<close>

subsection \<open>Facts about dictionaries\<close>


lemma map_of_tabulate:
  "map_of (map (\<lambda>k. (k, f k)) ks) k = (if k \<in> set ks then Some (f k) else None)"
  by (induction ks) auto

lemma keys_tabulate: "keys (map (\<lambda>k. (k, f k)) ks) = ks"
  by (simp add: keys_def comp_def)

lemma vals_tabulate: "vals (map (\<lambda>k. (k, f k)) ks) = map f ks"
  by (simp add: vals_def comp_def)

lemma map_of_in_keys: "map_of d k = Some v \<Longrightarrow> k \<in> set (keys d)"
  by (auto simp: keys_def dest: map_of_SomeD intro: rev_image_eqI)

lemma length_keys: "length (keys d) = length d"
  by (simp add: keys_def)

lemma well_typed_finite:
  "well_typed corpus \<Longrightarrow> map_of corpus pg = Some links \<Longrightarrow> finite links"
  by (auto simp: well_typed_def list_all_iff dest: map_of_SomeD)

lemma corpus_invariant_subset:
  "corpus_invariant corpus \<Longrightarrow> map_of corpus pg = Some links \<Longrightarrow> links \<subseteq> set (keys corpus)"
  by (auto simp: corpus_invariant_def list_all_iff dest!: map_of_SomeD)

lemma sum_list_indicator:
  fixes a :: real
  assumes "distinct ks" and "L \<subseteq> set ks"
  shows "sum_list (map (\<lambda>pg. if pg \<in> L then a else 0) ks) = real (card L) * a"
proof -
  have "sum_list (map (\<lambda>pg. if pg \<in> L then a else 0) ks)
          = (\<Sum>pg\<in>set ks. if pg \<in> L then a else 0)"
    using assms(1) by (rule sum_list_distinct_conv_sum_set)
  also have "\<dots> = (\<Sum>pg\<in>set ks \<inter> L. a)"
    by (rule sum.inter_restrict [symmetric]) simp
  also have "set ks \<inter> L = L"
    using assms(2) by blast
  finally show ?thesis by simp
qed

lemma sum_list_links:
  fixes b e :: real
  assumes "distinct ks" and "L \<subseteq> set ks"
  shows "sum_list (map (\<lambda>pg. if pg \<in> L then b + e else b) ks)
           = real (length ks) * b + real (card L) * e"
proof -
  have "(\<lambda>pg. if pg \<in> L then b + e else b) = (\<lambda>pg. b + (if pg \<in> L then e else 0))"
    by auto
  then have "sum_list (map (\<lambda>pg. if pg \<in> L then b + e else b) ks)
               = sum_list (map (\<lambda>pg. b + (if pg \<in> L then e else 0)) ks)"
    by simp
  also have "\<dots> = sum_list (map (\<lambda>pg. b) ks) + sum_list (map (\<lambda>pg. if pg \<in> L then e else 0) ks)"
    by (rule sum_list_addf)
  also have "sum_list (map (\<lambda>pg. b) ks) = real (length ks) * b"
    by (simp add: sum_list_triv)
  finally show ?thesis
    using sum_list_indicator [OF assms, of e] by simp
qed

lemma transition_model_total_weight:
  assumes "well_typed corpus" and "corpus_invariant corpus"
    and "P \<in> set (keys corpus)"
  shows "\<exists>dist. transition_model corpus P d = Inr dist \<and> sum_list (vals dist) = 1"
proof -
  from assms(3) obtain L where L: "map_of corpus P = Some L"
    by (metis keys_def map_of_eq_None_iff not_Some_eq set_map)
  have fin: "finite L" using assms(1) L by (rule well_typed_finite)
  have sub: "L \<subseteq> set (keys corpus)" using assms(2) L by (rule corpus_invariant_subset)
  have dist: "distinct (keys corpus)" using assms(1) by (simp add: well_typed_def)
  have N: "0 < length corpus" using assms(3) by (auto simp: keys_def)
  show ?thesis
  proof (cases "card L = 0")
    case True
    then show ?thesis
      using L N by (simp add: transition_model_def lookup_def vals_tabulate comp_def
          sum_list_triv length_keys)
  next
    case False
    have "sum_list (map (\<lambda>pg. if pg \<in> L
             then (1 - d) / real (length corpus) + d / real (card L)
             else (1 - d) / real (length corpus)) (keys corpus))
          = real (length (keys corpus)) * ((1 - d) / real (length corpus))
            + real (card L) * (d / real (card L))"
      using dist sub by (rule sum_list_links)
    also have "\<dots> = 1"
      using N False by (simp add: length_keys)
    finally show ?thesis
      using L False by (simp add: transition_model_def lookup_def Let_def vals_tabulate)
  qed
qed

subsection \<open>A pass of the iteration on tables\<close>


lemma vals_table: "vals (table ks f) = map f ks"
  by (simp add: table_def vals_tabulate)

lemma lookup_table: "k \<in> set ks \<Longrightarrow> lookup (table ks f) k = Inr (f k)"
  by (simp add: lookup_def table_def map_of_tabulate)

lemma in_keys_map_ofE:
  assumes "pg \<in> set (keys corpus)"
  obtains links where "map_of corpus pg = Some links"
  using assms by (metis keys_def map_of_eq_None_iff not_Some_eq set_map)

lemma add_contributions_eq:
  assumes "set pgs \<subseteq> set (keys corpus)"
    and "\<forall>pg \<in> set pgs. lookup ranks pg = Inr (f pg)"
  shows "add_contributions corpus d ranks page pgs acc
           = Inr (acc + d * (\<Sum>pg \<leftarrow> pgs. f pg * share corpus pg page))"
  using assms
proof (induction pgs arbitrary: acc)
  case Nil
  then show ?case by simp
next
  case (Cons pg pgs)
  from Cons.prems have "pg \<in> set (keys corpus)" by simp
  then obtain links where links: "map_of corpus pg = Some links"
    by (rule in_keys_map_ofE)
  have r: "lookup ranks pg = Inr (f pg)"
    using Cons.prems by simp
  have IH: "\<And>acc. add_contributions corpus d ranks page pgs acc
           = Inr (acc + d * (\<Sum>pg \<leftarrow> pgs. f pg * share corpus pg page))"
    using Cons by simp
  have c: "lookup corpus pg = Inr links"
    using links by (simp add: lookup_def)
  show ?case
    by (simp add: links c r IH share_def algebra_simps)
qed

lemma update_ranks_eq:
  assumes "\<forall>pg \<in> set (keys corpus). lookup ranks pg = Inr (f pg)"
  shows "update_ranks corpus d ranks pages = Inr (table pages (next_rank corpus d f))"
proof (induction pages)
  case Nil
  then show ?case by (simp add: table_def)
next
  case (Cons page pages)
  have "add_contributions corpus d ranks page (keys corpus) ((1 - d) / real (length corpus))
          = Inr (next_rank corpus d f page)"
    using assms by (simp add: add_contributions_eq next_rank_def)
  then show ?case
    using Cons by (simp add: table_def)
qed

lemma update_ranks_table:
  assumes "set (keys corpus) \<subseteq> set ks"
  shows "update_ranks corpus d (table ks f) pages = Inr (table pages (next_rank corpus d f))"
proof (rule update_ranks_eq)
  show "\<forall>pg \<in> set (keys corpus). lookup (table ks f) pg = Inr (f pg)"
    using assms by (auto simp: lookup_table)
qed

lemma changes_table:
  assumes "set pages \<subseteq> set ks"
  shows "changes (table ks g) (table ks f) pages = Inr (map (\<lambda>page. \<bar>g page - f page\<bar>) pages)"
  using assms by (induction pages) (simp_all add: lookup_table)

lemma py_max_Max: "xs \<noteq> [] \<Longrightarrow> py_max xs = Inr (Max (set xs))"
  by (cases xs) (simp_all add: py_max_def Max.set_eq_fold [symmetric])

lemma pass_table:
  assumes "corpus \<noteq> []"
  shows "pass corpus d (table (keys corpus) f)
           = Inr (table (keys corpus) (next_rank corpus d f),
                  max_change (keys corpus) (next_rank corpus d f) f)"
proof -
  have "keys corpus \<noteq> []" using assms by (simp add: keys_def)
  then show ?thesis
    by (simp add: pass_def update_ranks_table changes_table py_max_Max max_change_def)
qed

lemma iterate_loop_table:
  assumes "corpus \<noteq> []"
  shows "iterate_loop corpus d (table (keys corpus) f)
           = (if max_change (keys corpus) (next_rank corpus d f) f < 0.001
              then Some (Inr (table (keys corpus) f))
              else iterate_loop corpus d (table (keys corpus) (next_rank corpus d f)))"
  by (subst iterate_loop.simps) (simp add: pass_table [OF assms])

subsection \<open>Column sums, preservation of the total, contraction\<close>

lemma share_nonneg: "0 \<le> share corpus pg page"
  by (simp add: share_def split: option.splits)

lemma share_column_sum:
  assumes "well_typed corpus" and "corpus_invariant corpus" and "pg \<in> set (keys corpus)"
  shows "(\<Sum>page \<in> set (keys corpus). share corpus pg page) = 1"
proof -
  from assms(3) obtain links where links: "map_of corpus pg = Some links"
    by (rule in_keys_map_ofE)
  have fin: "finite links" using assms(1) links by (rule well_typed_finite)
  have sub: "links \<subseteq> set (keys corpus)" using assms(2) links by (rule corpus_invariant_subset)
  have dist: "distinct (keys corpus)" using assms(1) by (simp add: well_typed_def)
  have N: "0 < length corpus" using assms(3) by (auto simp: keys_def)
  have conv: "(\<Sum>page \<in> set (keys corpus). share corpus pg page)
                = (\<Sum>page \<leftarrow> keys corpus. share corpus pg page)"
    using dist by (rule sum_list_distinct_conv_sum_set [symmetric])
  show ?thesis
  proof (cases "card links = 0")
    case True
    with fin have "links = {}" by simp
    then have "share corpus pg = (\<lambda>page. 1 / real (length corpus))"
      by (intro ext) (simp add: share_def links)
    then show ?thesis
      unfolding conv using N by (simp add: sum_list_triv length_keys)
  next
    case False
    have "share corpus pg = (\<lambda>page. if page \<in> links then 1 / real (card links) else 0)"
      using False by (intro ext) (simp add: share_def links)
    then have "(\<Sum>page \<leftarrow> keys corpus. share corpus pg page)
                 = real (card links) * (1 / real (card links))"
      using sum_list_indicator [OF dist sub, of "1 / real (card links)"] by simp
    then show ?thesis
      unfolding conv using False by simp
  qed
qed

lemma next_rank_set:
  assumes "distinct (keys corpus)"
  shows "next_rank corpus d f page
           = (1 - d) / real (length corpus)
             + d * (\<Sum>pg \<in> set (keys corpus). f pg * share corpus pg page)"
  unfolding next_rank_def using assms by (simp add: sum_list_distinct_conv_sum_set)

lemma total_change_set:
  assumes "distinct (keys corpus)"
  shows "total_change corpus d f
           = (\<Sum>page \<in> set (keys corpus). \<bar>next_rank corpus d f page - f page\<bar>)"
  unfolding total_change_def using assms by (simp add: sum_list_distinct_conv_sum_set)

lemma weighted_column_sum:
  assumes "well_typed corpus" and "corpus_invariant corpus"
  shows "(\<Sum>page \<in> set (keys corpus). \<Sum>pg \<in> set (keys corpus). g pg * share corpus pg page)
           = (\<Sum>pg \<in> set (keys corpus). g pg)"
proof -
  have "(\<Sum>page \<in> set (keys corpus). \<Sum>pg \<in> set (keys corpus). g pg * share corpus pg page)
          = (\<Sum>pg \<in> set (keys corpus). \<Sum>page \<in> set (keys corpus). g pg * share corpus pg page)"
    by (rule sum.swap)
  also have "\<dots> = (\<Sum>pg \<in> set (keys corpus). g pg * (\<Sum>page \<in> set (keys corpus). share corpus pg page))"
    by (simp add: sum_distrib_left)
  also have "\<dots> = (\<Sum>pg \<in> set (keys corpus). g pg)"
    by (rule sum.cong) (simp_all add: share_column_sum [OF assms])
  finally show ?thesis .
qed

lemma next_rank_sum:
  assumes "well_typed corpus" and "corpus_invariant corpus" and "corpus \<noteq> []"
  shows "(\<Sum>page \<in> set (keys corpus). next_rank corpus d f page)
           = (1 - d) + d * (\<Sum>pg \<in> set (keys corpus). f pg)"
proof -
  have dist: "distinct (keys corpus)" using assms(1) by (simp add: well_typed_def)
  have card: "card (set (keys corpus)) = length corpus"
    using dist by (simp add: distinct_card length_keys)
  have N: "0 < length corpus" using assms(3) by simp
  have "(\<Sum>page \<in> set (keys corpus). next_rank corpus d f page)
          = (\<Sum>page \<in> set (keys corpus). (1 - d) / real (length corpus))
            + d * (\<Sum>page \<in> set (keys corpus). \<Sum>pg \<in> set (keys corpus). f pg * share corpus pg page)"
    by (simp add: next_rank_set [OF dist] sum.distrib sum_distrib_left)
  also have "(\<Sum>page \<in> set (keys corpus). (1 - d) / real (length corpus)) = 1 - d"
    using N by (simp add: card)
  finally show ?thesis
    by (simp add: weighted_column_sum [OF assms(1,2)])
qed

lemma next_rank_diff:
  assumes "distinct (keys corpus)"
  shows "next_rank corpus d g page - next_rank corpus d f page
           = d * (\<Sum>pg \<in> set (keys corpus). (g pg - f pg) * share corpus pg page)"
  by (simp add: next_rank_set [OF assms] sum_subtractf left_diff_distrib right_diff_distrib)

lemma total_change_contracts:
  assumes "well_typed corpus" and "corpus_invariant corpus" and "0 \<le> d"
  shows "total_change corpus d (next_rank corpus d f) \<le> d * total_change corpus d f"
proof -
  have dist: "distinct (keys corpus)" using assms(1) by (simp add: well_typed_def)
  let ?K = "set (keys corpus)"
  let ?g = "next_rank corpus d f"
  have step: "\<bar>next_rank corpus d ?g page - ?g page\<bar>
                \<le> d * (\<Sum>pg \<in> ?K. \<bar>?g pg - f pg\<bar> * share corpus pg page)" for page
  proof -
    have "\<bar>next_rank corpus d ?g page - ?g page\<bar>
            = d * \<bar>\<Sum>pg \<in> ?K. (?g pg - f pg) * share corpus pg page\<bar>"
      using assms(3) by (simp add: next_rank_diff [OF dist] abs_mult)
    also have "\<dots> \<le> d * (\<Sum>pg \<in> ?K. \<bar>(?g pg - f pg) * share corpus pg page\<bar>)"
      using assms(3) by (intro mult_left_mono sum_abs)
    also have "\<dots> = d * (\<Sum>pg \<in> ?K. \<bar>?g pg - f pg\<bar> * share corpus pg page)"
      by (simp add: abs_mult share_nonneg)
    finally show ?thesis .
  qed
  have "total_change corpus d ?g = (\<Sum>page \<in> ?K. \<bar>next_rank corpus d ?g page - ?g page\<bar>)"
    by (rule total_change_set [OF dist])
  also have "\<dots> \<le> (\<Sum>page \<in> ?K. d * (\<Sum>pg \<in> ?K. \<bar>?g pg - f pg\<bar> * share corpus pg page))"
    by (rule sum_mono) (rule step)
  also have "\<dots> = d * (\<Sum>page \<in> ?K. \<Sum>pg \<in> ?K. \<bar>?g pg - f pg\<bar> * share corpus pg page)"
    by (simp add: sum_distrib_left)
  also have "\<dots> = d * (\<Sum>pg \<in> ?K. \<bar>?g pg - f pg\<bar>)"
    by (simp add: weighted_column_sum [OF assms(1,2)])
  also have "\<dots> = d * total_change corpus d f"
    by (simp add: total_change_set [OF dist])
  finally show ?thesis .
qed

lemma max_change_le_total:
  assumes "distinct (keys corpus)" and "corpus \<noteq> []"
  shows "max_change (keys corpus) (next_rank corpus d f) f \<le> total_change corpus d f"
proof -
  have ne: "set (keys corpus) \<noteq> {}" using assms(2) by (simp add: keys_def)
  have "\<bar>next_rank corpus d f page - f page\<bar> \<le> total_change corpus d f"
    if "page \<in> set (keys corpus)" for page
    unfolding total_change_set [OF assms(1)]
    using that by (intro member_le_sum) simp_all
  then show ?thesis
    unfolding max_change_def using ne by (subst Max_le_iff) auto
qed

lemma total_change_nonneg: "0 \<le> total_change corpus d f"
  unfolding total_change_def by (rule sum_list_nonneg) auto

lemma iterate_loop_stops:
  assumes "well_typed corpus" and "corpus_invariant corpus" and "corpus \<noteq> []"
    and "0 \<le> d"
  shows "d ^ k * total_change corpus d f < 0.001 \<Longrightarrow>
           \<exists>j. iterate_loop corpus d (table (keys corpus) f)
                  = Some (Inr (table (keys corpus) ((next_rank corpus d ^^ j) f)))"
proof (induction k arbitrary: f)
  case 0
  have dist: "distinct (keys corpus)" using assms(1) by (simp add: well_typed_def)
  have "max_change (keys corpus) (next_rank corpus d f) f < 0.001"
    using max_change_le_total [OF dist assms(3), of d f] 0 by simp
  then have "iterate_loop corpus d (table (keys corpus) f)
               = Some (Inr (table (keys corpus) ((next_rank corpus d ^^ 0) f)))"
    by (simp add: iterate_loop_table [OF assms(3)])
  then show ?case by blast
next
  case (Suc k)
  show ?case
  proof (cases "max_change (keys corpus) (next_rank corpus d f) f < 0.001")
    case True
    then have "iterate_loop corpus d (table (keys corpus) f)
                 = Some (Inr (table (keys corpus) ((next_rank corpus d ^^ 0) f)))"
      by (simp add: iterate_loop_table [OF assms(3)])
    then show ?thesis by blast
  next
    case False
    have "d ^ k * total_change corpus d (next_rank corpus d f)
            \<le> d ^ k * (d * total_change corpus d f)"
      using assms(4) total_change_contracts [OF assms(1,2,4)]
      by (intro mult_left_mono) simp_all
    also have "\<dots> < 0.001" using Suc.prems by (simp add: ac_simps)
    finally obtain j where
      j: "iterate_loop corpus d (table (keys corpus) (next_rank corpus d f))
            = Some (Inr (table (keys corpus) ((next_rank corpus d ^^ j) (next_rank corpus d f))))"
      using Suc.IH by blast
    have "iterate_loop corpus d (table (keys corpus) f)
            = Some (Inr (table (keys corpus) ((next_rank corpus d ^^ Suc j) f)))"
      using False j by (simp add: iterate_loop_table [OF assms(3)] funpow_swap1)
    then show ?thesis by blast
  qed
qed

lemma power_small:
  fixes d c :: real
  assumes "0 \<le> d" and "d < 1" and "0 \<le> c"
  shows "\<exists>k. d ^ k * c < 0.001"
proof (cases "c = 0")
  case True
  then show ?thesis by simp
next
  case False
  with assms(3) have c: "0 < c" by simp
  then have "0 < 0.001 / c" by simp
  then obtain k where "d ^ k < 0.001 / c"
    using real_arch_pow_inv [OF _ assms(2)] by blast
  then have "d ^ k * c < 0.001"
    using c by (simp add: pos_less_divide_eq)
  then show ?thesis by blast
qed

lemma iterate_loop_terminates:
  assumes "well_typed corpus" and "corpus_invariant corpus" and "corpus \<noteq> []"
    and "0 \<le> d" and "d < 1"
  shows "\<exists>j. iterate_loop corpus d (table (keys corpus) f)
                = Some (Inr (table (keys corpus) ((next_rank corpus d ^^ j) f)))"
proof -
  obtain k where "d ^ k * total_change corpus d f < 0.001"
    using power_small [OF assms(4,5) total_change_nonneg] by blast
  then show ?thesis
    by (rule iterate_loop_stops [OF assms(1-4)])
qed

subsection \<open>The formula of a pass\<close>



subsection \<open>Tables and totals\<close>

lemma keys_Cons: "keys ((k, v) # d) = k # keys d"
  by (simp add: keys_def)

lemma table_of_dict:
  assumes "distinct (keys ranks)"
  shows "ranks = table (keys ranks) (\<lambda>k. the (map_of ranks k))"
  using assms
proof (induction ranks)
  case Nil
  then show ?case by (simp add: table_def keys_def)
next
  case (Cons kv ranks)
  obtain k v where kv: "kv = (k, v)" by (cases kv)
  have nk: "k \<notin> set (keys ranks)" and d: "distinct (keys ranks)"
    using Cons.prems by (simp_all add: kv keys_Cons)
  have IH: "map (\<lambda>x. (x, the (map_of ranks x))) (keys ranks) = ranks"
    using Cons.IH [OF d] by (simp add: table_def)
  have same: "map (\<lambda>x. (x, the (map_of (kv # ranks) x))) (keys ranks)
                = map (\<lambda>x. (x, the (map_of ranks x))) (keys ranks)"
    using nk by (intro map_cong) (auto simp: kv)
  have "table (keys (kv # ranks)) (\<lambda>x. the (map_of (kv # ranks) x))
          = (k, v) # map (\<lambda>x. (x, the (map_of (kv # ranks) x))) (keys ranks)"
    by (simp add: kv table_def keys_Cons)
  also have "\<dots> = (k, v) # ranks"
    by (simp only: same IH)
  finally show ?case by (simp add: kv)
qed

lemma initial_total:
  assumes "corpus \<noteq> []"
  shows "(\<Sum>page \<leftarrow> keys corpus. 1 / real (length corpus)) = 1"
  using assms by (simp add: sum_list_triv length_keys)

lemma funpow_total:
  assumes "well_typed corpus" and "corpus_invariant corpus" and "corpus \<noteq> []"
    and "(\<Sum>page \<leftarrow> keys corpus. f page) = 1"
  shows "(\<Sum>page \<leftarrow> keys corpus. (next_rank corpus d ^^ j) f page) = 1"
proof -
  have dist: "distinct (keys corpus)" using assms(1) by (simp add: well_typed_def)
  have "(\<Sum>page \<in> set (keys corpus). (next_rank corpus d ^^ j) f page) = 1"
  proof (induction j)
    case 0
    then show ?case using assms(4) dist by (simp add: sum_list_distinct_conv_sum_set)
  next
    case (Suc j)
    then show ?case
      by (simp add: next_rank_sum [OF assms(1-3)])
  qed
  then show ?thesis using dist by (simp add: sum_list_distinct_conv_sum_set)
qed

lemma iterate_pagerank_returns:
  assumes "well_typed corpus" and "corpus_invariant corpus" and "corpus \<noteq> []"
    and "0 \<le> d" and "d < 1"
  shows "\<exists>j. iterate_pagerank corpus d
              = Some (Inr (table (keys corpus)
                   ((next_rank corpus d ^^ j) (\<lambda>page. 1 / real (length corpus)))))"
  using iterate_loop_terminates [OF assms, of "\<lambda>page. 1 / real (length corpus)"]
  by (simp add: iterate_pagerank_def table_def)

subsection \<open>The walk of the sampling estimator\<close>

lemma transition_model_keys:
  "transition_model corpus P d = Inr pd \<Longrightarrow> keys pd = keys corpus"
  by (auto simp: transition_model_def Let_def keys_tabulate split: sum.splits if_splits)

lemma update_existing:
  fixes visits :: "(page \<times> nat) list"
  assumes "lookup visits k = Inr c"
  shows "keys (AList.update k (c + 1) visits) = keys visits \<and>
         sum_list (vals (AList.update k (c + 1) visits)) = sum_list (vals visits) + 1"
  using assms
proof (induction visits)
  case Nil
  then show ?case by (simp add: lookup_def)
next
  case (Cons kv visits)
  obtain k' v' where kv: "kv = (k', v')" by (cases kv)
  show ?case
  proof (cases "k = k'")
    case True
    with Cons.prems show ?thesis
      by (simp add: kv lookup_def keys_def vals_def)
  next
    case False
    with Cons.prems have "lookup visits k = Inr c"
      by (simp add: kv lookup_def)
    from Cons.IH [OF this] False show ?thesis
      by (simp add: kv keys_def vals_def)
  qed
qed

lemma walk_counts:
  "walk corpus d g steps page visits = Inr v \<Longrightarrow>
     keys v = keys visits \<and> sum_list (vals v) = sum_list (vals visits) + length steps"
proof (induction steps arbitrary: page visits)
  case Nil
  then show ?case by simp
next
  case (Cons i steps)
  from Cons.prems obtain probability_dict next_page c where
    c: "lookup visits next_page = Inr c" and
    w: "walk corpus d g steps next_page (AList.update next_page (c + 1) visits) = Inr v"
    by (auto split: sum.splits)
  from Cons.IH [OF w] update_existing [OF c] show ?case by simp
qed

lemma normalize_sum:
  assumes "n \<noteq> 0"
  shows "normalize visits n = Inr (map (\<lambda>(page, c). (page, real c / real_of_int n)) visits)"
    and "sum_list (vals (map (\<lambda>(page, c). (page, real c / real_of_int n)) visits))
           = real (sum_list (vals visits)) / real_of_int n"
    and "keys (map (\<lambda>(page, c). (page, real c / real_of_int n)) visits) = keys visits"
proof -
  show "normalize visits n = Inr (map (\<lambda>(page, c). (page, real c / real_of_int n)) visits)"
    using assms by (simp add: normalize_def)
  show "sum_list (vals (map (\<lambda>(page, c). (page, real c / real_of_int n)) visits))
           = real (sum_list (vals visits)) / real_of_int n"
    by (induction visits) (auto simp: vals_def add_divide_distrib)
  show "keys (map (\<lambda>(page, c). (page, real c / real_of_int n)) visits) = keys visits"
    by (induction visits) (auto simp: keys_def)
qed

lemma normalize_keys: "normalize visits n = Inr r \<Longrightarrow> keys r = keys visits"
  by (auto simp: normalize_def keys_def split: if_splits)

lemma sample_visits_sum:
  assumes "sample_visits corpus d n g = Inr r"
  shows "keys r = keys corpus" and "1 \<le> n \<Longrightarrow> sum_list (vals r) = 1"
proof -
  from assms obtain page v where
    w: "walk corpus d g [0 ..< nat n] page (map (\<lambda>page. (page, 0)) (keys corpus)) = Inr v" and
    r: "normalize v n = Inr r"
    by (auto simp: sample_visits_def Let_def split: sum.splits)
  from walk_counts [OF w] have
    k: "keys v = keys corpus" and s: "sum_list (vals v) = nat n"
    by (simp_all add: keys_tabulate vals_tabulate sum_list_triv)
  show "keys r = keys corpus"
    using normalize_keys [OF r] k by simp
  show "sum_list (vals r) = 1" if "1 \<le> n"
  proof -
    from that have n: "n \<noteq> 0" by simp
    from r normalize_sum(1) [OF n, of v] have
      "r = map (\<lambda>(page, c). (page, real c / real_of_int n)) v" by simp
    then show ?thesis
      using normalize_sum(2) [OF n, of v] s that by simp
  qed
qed

lemma walk_returns:
  assumes "well_typed corpus" and "corpus_invariant corpus" and "rng_contract g"
  shows "page \<in> set (keys corpus) \<Longrightarrow> keys visits = keys corpus \<Longrightarrow>
           \<exists>v. walk corpus d g steps page visits = Inr v"
proof (induction steps arbitrary: page visits)
  case Nil
  then show ?case by simp
next
  case (Cons i steps)
  from transition_model_total_weight [OF assms(1,2) Cons.prems(1), of d] obtain pd where
    t: "transition_model corpus page d = Inr pd" and s: "sum_list (vals pd) = 1"
    by blast
  have k: "keys pd = keys corpus" using t by (rule transition_model_keys)
  have ne: "keys pd \<noteq> []" using k Cons.prems(1) by auto
  have "length (vals pd) = length (keys pd)" by (simp add: keys_def vals_def)
  with ne s assms(3) obtain p where
    p: "p \<in> set (keys pd)" and c: "choices g i (keys pd) (vals pd) = Inr p"
    unfolding rng_contract_def by (metis zero_less_one)
  have "p \<in> set (keys visits)" using p k Cons.prems(2) by simp
  then obtain n where "map_of visits p = Some n" by (rule in_keys_map_ofE)
  then have l: "lookup visits p = Inr n" by (simp add: lookup_def)
  have "keys (AList.update p (n + 1) visits) = keys corpus"
    using update_existing [OF l] Cons.prems(2) by simp
  from Cons.IH [OF _ this, of p] p k obtain v where
    "walk corpus d g steps p (AList.update p (n + 1) visits) = Inr v" by auto
  then show ?case by (simp add: t c l)
qed

lemma sample_pagerank_returns:
  assumes "well_typed corpus" and "corpus_invariant corpus" and "corpus \<noteq> []"
    and "rng_contract g" and "1 \<le> n"
  shows "\<exists>r. sample_pagerank corpus d n g = Inr r \<and> sum_list (vals r) = 1"
proof -
  have "(0::int) \<le> int (length corpus) - 1" using assms(3) by (cases corpus) simp_all
  with assms(4) obtain rand where
    rand: "randint g 0 (int (length corpus) - 1) = Inr rand" and
    range: "0 \<le> rand" "rand \<le> int (length corpus) - 1"
    unfolding rng_contract_def by blast
  have idx: "py_index (keys corpus) rand = Inr (keys corpus ! nat rand)"
    using range by (simp add: py_index_def Let_def length_keys)
  have "nat rand < length (keys corpus)" using range by (simp add: length_keys)
  then have start: "keys corpus ! nat rand \<in> set (keys corpus)" by simp
  obtain v where
    w: "walk corpus d g [0 ..< nat n] (keys corpus ! nat rand)
          (map (\<lambda>page. (page, 0)) (keys corpus)) = Inr v"
    using walk_returns [OF assms(1,2,4) start, of "map (\<lambda>page. (page, 0)) (keys corpus)"]
    by (auto simp: keys_tabulate)
  from assms(5) have n: "n \<noteq> 0" by simp
  have sv: "sample_visits corpus d n g
              = Inr (map (\<lambda>(page, c). (page, real c / real_of_int n)) v)"
    by (simp add: sample_visits_def Let_def rand idx w normalize_sum(1) [OF n])
  have "sum_list (vals (map (\<lambda>(page, c). (page, real c / real_of_int n)) v)) = 1"
    using sv assms(5) by (rule sample_visits_sum(2))
  then show ?thesis
    by (simp add: sample_pagerank_def sv probability_check_def)
qed

subsection \<open>Keys of the tables of the iteration\<close>

lemma update_ranks_keys:
  "update_ranks corpus d ranks pages = Inr new_ranks \<Longrightarrow> keys new_ranks = pages"
  by (induction pages arbitrary: new_ranks) (auto simp: keys_def split: sum.splits)

lemma pass_keys: "pass corpus d ranks = Inr (new_ranks, m) \<Longrightarrow> keys new_ranks = keys corpus"
  by (auto simp: pass_def split: sum.splits dest: update_ranks_keys)

lemma iterate_loop_keys:
  assumes "iterate_loop corpus d ranks = Some result"
  shows "keys ranks = keys corpus \<longrightarrow> (\<forall>r. result = Inr r \<longrightarrow> keys r = keys corpus)"
  using assms
proof (induction rule: iterate_loop.raw_induct [rotated 1, consumes 1])
  case step: (1 loop corpus d ranks result)
  show ?case
  proof (intro impI allI)
    fix r
    assume k: "keys ranks = keys corpus" and r: "result = Inr r"
    show "keys r = keys corpus"
    proof (cases "pass corpus d ranks")
      case (Inl e)
      with step(2) r show ?thesis by simp
    next
      case (Inr nm)
      obtain new_ranks m where nm: "nm = (new_ranks, m)" by (cases nm)
      show ?thesis
      proof (cases "m < 0.001")
        case True
        with step(2) Inr nm r k show ?thesis by simp
      next
        case False
        with step(2) Inr nm have "loop corpus d new_ranks = Some result" by simp
        from step(1) [OF this] pass_keys [of corpus d ranks new_ranks m] Inr nm r
        show ?thesis by simp
      qed
    qed
  qed
qed

lemma iterate_pagerank_keys:
  assumes "iterate_pagerank corpus d = Some (Inr r)"
  shows "keys r = keys corpus"
  using iterate_loop_keys [of corpus d "map (\<lambda>page. (page, 1 / real (length corpus))) (keys corpus)" "Inr r"]
    assms
  by (simp add: iterate_pagerank_def Let_def keys_tabulate)

subsection \<open>Concrete inputs\<close>

lemma round_robin_rng_contract: "rng_contract round_robin_rng"
  by (auto simp: rng_contract_def round_robin_rng_def)

lemma three_pages_typed:
  "well_typed [(''A'', {''B''}), (''B'', {}), (''C'', {''A''})]"
  "corpus_invariant [(''A'', {''B''}), (''B'', {}), (''C'', {''A''})]"
  by (simp_all add: well_typed_def corpus_invariant_def keys_def)

lemma two_pages_loop:
  "iterate_loop [(''A'', {''B''}), (''B'', {''A''})] 0.85 [(''A'', 1/2), (''B'', 1/2)]
     = Some (Inr [(''A'', 1/2), (''B'', 1/2)])"
  by (subst iterate_loop.simps) (simp add: pass_def keys_def lookup_def py_max_def)

lemma two_pages_sample:
  "sample_visits [(''A'', {''B''}), (''B'', {})] (17/20) 2 round_robin_rng
     = Inr [(''A'', 1/2), (''B'', 1/2)]"
  by (simp add: sample_visits_def round_robin_rng_def py_index_def keys_def vals_def lookup_def
      transition_model_def normalize_def upt_rec)

subsection \<open>Rounded arithmetic: the exact instance\<close>









subsection \<open>Rounded arithmetic: a pass returns\<close>





subsection \<open>Binary64 arithmetic on the cycling input\<close>












section \<open>The claims\<close>

text \<open>
  C1. For a page \<open>P\<close> of the corpus whose link set is empty, the transition model gives
  every page of the corpus, \<open>P\<close> included, the probability \<open>1/N\<close>, whatever the damping
  factor is.
\<close>

theorem transition_model_dangling:
  assumes "map_of corpus P = Some {}"
  shows "\<exists>dist. transition_model corpus P d = Inr dist \<and>
           P \<in> set (keys corpus) \<and>
           (\<forall>pg \<in> set (keys corpus). lookup dist pg = Inr (1 / real (length corpus)))"
  using assms
  by (simp add: transition_model_def lookup_def map_of_tabulate map_of_in_keys)

theorem transition_model_dangling_witness:
  "\<exists>dist. transition_model [(''A'', {}), (''B'', {''A''})] ''A'' (17/20) = Inr dist \<and>
     lookup dist ''A'' = Inr (1/2) \<and> lookup dist ''B'' = Inr (1/2)"
  using transition_model_dangling [of "[(''A'', {}), (''B'', {''A''})]" "''A''" "17/20"]
  by (simp add: keys_def)

text \<open>
  C2. For a page \<open>P\<close> of the corpus with a non-empty link set \<open>L\<close>, the transition model
  gives \<open>(1 - d)/N\<close> to every page outside \<open>L\<close> and \<open>(1 - d)/N + d/|L|\<close> to every page
  in \<open>L\<close>.
\<close>

theorem transition_model_links:
  assumes "map_of corpus P = Some L" and "finite L" and "L \<noteq> {}"
  shows "\<exists>dist. transition_model corpus P d = Inr dist \<and>
           (\<forall>pg \<in> set (keys corpus).
              (pg \<in> L \<longrightarrow> lookup dist pg =
                 Inr ((1 - d) / real (length corpus) + d / real (card L))) \<and>
              (pg \<notin> L \<longrightarrow> lookup dist pg = Inr ((1 - d) / real (length corpus))))"
  using assms
  by (simp add: transition_model_def lookup_def Let_def map_of_tabulate)

theorem transition_model_links_witness:
  "\<exists>dist. transition_model [(''A'', {''B''}), (''B'', {}), (''C'', {''A''})] ''A'' (17/20) = Inr dist \<and>
     lookup dist ''A'' = Inr (1/20) \<and> lookup dist ''B'' = Inr (9/10) \<and>
     lookup dist ''C'' = Inr (1/20)"
  using transition_model_links
    [of "[(''A'', {''B''}), (''B'', {}), (''C'', {''A''})]" "''A''" "{''B''}" "17/20"]
  by (simp add: keys_def)

text \<open>
  C3. For a corpus that satisfies the corpus invariant and a page \<open>P\<close> of it, the values
  of the distribution that the transition model returns sum to exactly 1. This holds
  for every damping factor, so in particular for every \<open>d\<close> with \<open>0 \<le> d < 1\<close>.
\<close>

theorem transition_model_sums_to_one:
  assumes "well_typed corpus" and "corpus_invariant corpus"
    and "P \<in> set (keys corpus)"
  shows "\<exists>dist. transition_model corpus P d = Inr dist \<and> sum_list (vals dist) = 1"
  using assms by (rule transition_model_total_weight)

theorem transition_model_sums_to_one_witness:
  "\<exists>dist. transition_model [(''A'', {''B''}), (''B'', {}), (''C'', {''A''})] ''A'' (17/20) = Inr dist
      \<and> sum_list (vals dist) = 1"
  using transition_model_sums_to_one
    [of "[(''A'', {''B''}), (''B'', {}), (''C'', {''A''})]" "''A''" "17/20"]
  by (simp add: well_typed_def corpus_invariant_def keys_def)






text \<open>
  C6. For a non-empty corpus that satisfies the corpus invariant and \<open>0 \<le> d < 1\<close>, the
  table that \<^verbatim>\<open>iterate_pagerank\<close> returns sums to exactly 1: the initial table sums
  to 1, and a pass started from a table over the corpus keys that sums to 1 gives a
  table that sums to 1.
\<close>

theorem iterate_pagerank_sums_to_one:
  assumes "well_typed corpus" and "corpus_invariant corpus" and "corpus \<noteq> []"
    and "0 \<le> d" and "d < 1"
  shows "(\<exists>r. iterate_pagerank corpus d = Some (Inr r) \<and> sum_list (vals r) = 1) \<and>
         sum_list (map (\<lambda>page. 1 / real (length corpus)) (keys corpus)) = 1 \<and>
         (\<forall>ranks. keys ranks = keys corpus \<and> sum_list (vals ranks) = 1 \<longrightarrow>
            (\<exists>new_ranks. update_ranks corpus d ranks (keys corpus) = Inr new_ranks \<and>
               sum_list (vals new_ranks) = 1))"
proof (intro conjI allI impI)
  obtain j where "iterate_pagerank corpus d
              = Some (Inr (table (keys corpus)
                   ((next_rank corpus d ^^ j) (\<lambda>page. 1 / real (length corpus)))))"
    using iterate_pagerank_returns [OF assms] by blast
  moreover have "sum_list (vals (table (keys corpus)
                   ((next_rank corpus d ^^ j) (\<lambda>page. 1 / real (length corpus))))) = 1"
    unfolding vals_table
    by (rule funpow_total [OF assms(1-3)]) (rule initial_total [OF assms(3)])
  ultimately show "\<exists>r. iterate_pagerank corpus d = Some (Inr r) \<and> sum_list (vals r) = 1"
    by blast
next
  show "sum_list (map (\<lambda>page. 1 / real (length corpus)) (keys corpus)) = 1"
    by (rule initial_total [OF assms(3)])
next
  fix ranks :: ranks
  assume a: "keys ranks = keys corpus \<and> sum_list (vals ranks) = 1"
  have dist: "distinct (keys corpus)" using assms(1) by (simp add: well_typed_def)
  define f where "f = (\<lambda>page. the (map_of ranks page))"
  have ranks: "ranks = table (keys corpus) f"
    using table_of_dict [of ranks] dist a by (simp add: f_def)
  have "(\<Sum>page \<leftarrow> keys corpus. f page) = 1"
    using a by (subst (asm) (2) ranks) (simp add: vals_table)
  then have "(\<Sum>page \<leftarrow> keys corpus. (next_rank corpus d ^^ 1) f page) = 1"
    by (rule funpow_total [OF assms(1-3)])
  then have "sum_list (vals (table (keys corpus) (next_rank corpus d f))) = 1"
    by (simp add: vals_table)
  moreover have "update_ranks corpus d ranks (keys corpus)
                   = Inr (table (keys corpus) (next_rank corpus d f))"
    by (subst ranks) (simp add: update_ranks_table)
  ultimately show "\<exists>new_ranks. update_ranks corpus d ranks (keys corpus) = Inr new_ranks \<and>
               sum_list (vals new_ranks) = 1"
    by simp
qed

theorem iterate_pagerank_sums_to_one_witness:
  "well_typed [(''A'', {''B''}), (''B'', {}), (''C'', {''A''})] \<and>
   corpus_invariant [(''A'', {''B''}), (''B'', {}), (''C'', {''A''})] \<and>
   (\<exists>r. iterate_pagerank [(''A'', {''B''}), (''B'', {}), (''C'', {''A''})] (17/20) = Some (Inr r)
        \<and> sum_list (vals r) = 1)"
  using iterate_pagerank_sums_to_one [of "[(''A'', {''B''}), (''B'', {}), (''C'', {''A''})]" "17/20"]
    three_pages_typed
  by simp

text \<open>
  C7. On the corpus \<open>{A: {B}, B: {A}}\<close> with \<open>d = 0.85\<close>, \<^verbatim>\<open>iterate_pagerank\<close> returns
  the rank 0.5 for \<open>A\<close> and 0.5 for \<open>B\<close>.
\<close>

theorem iterate_pagerank_two_pages:
  "iterate_pagerank [(''A'', {''B''}), (''B'', {''A''})] 0.85
     = Some (Inr [(''A'', 0.5), (''B'', 0.5)])"
  using two_pages_loop by (simp add: iterate_pagerank_def keys_def)

text \<open>
  C9. When \<^verbatim>\<open>sample_pagerank\<close> reaches its check with the table \<open>visits\<close>, it raises
  the \<^verbatim>\<open>ValueError\<close> of line 120 if and only if the values of \<open>visits\<close> differ from 1
  by more than 0.001 in sum, and returns \<open>visits\<close> if and only if they do not; it raises
  nothing else there. For \<open>n \<ge> 1\<close> the sum is exactly 1, so the table is returned and
  the error is not raised.
\<close>

theorem sample_pagerank_probability_check:
  assumes "sample_visits corpus d n g = Inr visits"
  shows "(sample_pagerank corpus d n g = Inl (ProbabilityCheck (sum_list (vals visits)))
            \<longleftrightarrow> \<bar>sum_list (vals visits) - 1\<bar> > 0.001) \<and>
         (sample_pagerank corpus d n g = Inr visits
            \<longleftrightarrow> \<bar>sum_list (vals visits) - 1\<bar> \<le> 0.001) \<and>
         (\<forall>e. sample_pagerank corpus d n g = Inl e
            \<longrightarrow> e = ProbabilityCheck (sum_list (vals visits))) \<and>
         (1 \<le> n \<longrightarrow> sum_list (vals visits) = 1 \<and> sample_pagerank corpus d n g = Inr visits)"
proof -
  have "1 \<le> n \<longrightarrow> sum_list (vals visits) = 1"
    using sample_visits_sum(2) [OF assms] by blast
  then show ?thesis
    using assms by (auto simp: sample_pagerank_def probability_check_def Let_def)
qed

theorem sample_pagerank_probability_check_witness:
  "sample_visits [(''A'', {''B''}), (''B'', {})] (17/20) 2 round_robin_rng
      = Inr [(''A'', 1/2), (''B'', 1/2)] \<and>
   sample_pagerank [(''A'', {''B''}), (''B'', {})] (17/20) 2 round_robin_rng
      = Inr [(''A'', 1/2), (''B'', 1/2)]"
  using sample_pagerank_probability_check [OF two_pages_sample] two_pages_sample
  by simp

text \<open>
  C10. The mappings returned by \<^verbatim>\<open>transition_model\<close>, \<^verbatim>\<open>sample_pagerank\<close> and
  \<^verbatim>\<open>iterate_pagerank\<close> have exactly the keys of the corpus, in the order of the corpus.
  \<^verbatim>\<open>transition_model\<close> returns for every page of the corpus; the two estimators return
  under the conditions stated in the last two conjuncts.
\<close>

theorem returned_keys:
  "(P \<in> set (keys corpus) \<longrightarrow> (\<exists>pd. transition_model corpus P d = Inr pd)) \<and>
   (\<forall>pd. transition_model corpus P d = Inr pd \<longrightarrow> keys pd = keys corpus) \<and>
   (\<forall>r. sample_pagerank corpus d n g = Inr r \<longrightarrow> keys r = keys corpus) \<and>
   (\<forall>r. iterate_pagerank corpus d = Some (Inr r) \<longrightarrow> keys r = keys corpus) \<and>
   (well_typed corpus \<and> corpus_invariant corpus \<and> corpus \<noteq> [] \<and> rng_contract g \<and> 1 \<le> n
      \<longrightarrow> (\<exists>r. sample_pagerank corpus d n g = Inr r)) \<and>
   (well_typed corpus \<and> corpus_invariant corpus \<and> corpus \<noteq> [] \<and> 0 \<le> d \<and> d < 1
      \<longrightarrow> (\<exists>r. iterate_pagerank corpus d = Some (Inr r)))"
proof (intro conjI allI impI)
  assume "P \<in> set (keys corpus)"
  then obtain links where "map_of corpus P = Some links" by (rule in_keys_map_ofE)
  then show "\<exists>pd. transition_model corpus P d = Inr pd"
    by (simp add: transition_model_def lookup_def Let_def)
next
  fix pd assume "transition_model corpus P d = Inr pd"
  then show "keys pd = keys corpus" by (rule transition_model_keys)
next
  fix r assume "sample_pagerank corpus d n g = Inr r"
  then have "sample_visits corpus d n g = Inr r"
    by (auto simp: sample_pagerank_def probability_check_def Let_def split: sum.splits if_splits)
  then show "keys r = keys corpus" by (rule sample_visits_sum(1))
next
  fix r assume "iterate_pagerank corpus d = Some (Inr r)"
  then show "keys r = keys corpus" by (rule iterate_pagerank_keys)
next
  assume "well_typed corpus \<and> corpus_invariant corpus \<and> corpus \<noteq> [] \<and> rng_contract g \<and> 1 \<le> n"
  then show "\<exists>r. sample_pagerank corpus d n g = Inr r"
    using sample_pagerank_returns [of corpus g n d] by blast
next
  assume "well_typed corpus \<and> corpus_invariant corpus \<and> corpus \<noteq> [] \<and> 0 \<le> d \<and> d < 1"
  then show "\<exists>r. iterate_pagerank corpus d = Some (Inr r)"
    using iterate_pagerank_returns [of corpus d] by blast
qed

theorem returned_keys_witness:
  "well_typed [(''A'', {''B''}), (''B'', {}), (''C'', {''A''})] \<and>
   corpus_invariant [(''A'', {''B''}), (''B'', {}), (''C'', {''A''})] \<and>
   rng_contract round_robin_rng \<and>
   (\<exists>pd. transition_model [(''A'', {''B''}), (''B'', {}), (''C'', {''A''})] ''A'' (17/20) = Inr pd
      \<and> keys pd = [''A'', ''B'', ''C'']) \<and>
   (\<exists>r. sample_pagerank [(''A'', {''B''}), (''B'', {}), (''C'', {''A''})] (17/20) 5 round_robin_rng = Inr r
      \<and> keys r = [''A'', ''B'', ''C'']) \<and>
   (\<exists>r. iterate_pagerank [(''A'', {''B''}), (''B'', {}), (''C'', {''A''})] (17/20) = Some (Inr r)
      \<and> keys r = [''A'', ''B'', ''C''])"
proof -
  let ?c = "[(''A'', {''B''}), (''B'', {}), (''C'', {''A''})]"
  have k: "keys ?c = [''A'', ''B'', ''C'']" by (simp add: keys_def)
  show ?thesis
    using returned_keys [of "''A''" ?c "17/20" 5 round_robin_rng] three_pages_typed round_robin_rng_contract
    by (auto simp: k)
qed

end
